theory Spec2Isabelle
  imports Complex_Main
begin

section \<open>Machine integers of the search engine\<close>

text \<open>
  \<^verbatim>\<open>lab2.cpp\<close> mixes \<^verbatim>\<open>int\<close> (the fan-out \<^verbatim>\<open>K\<close>, the loop counter \<^verbatim>\<open>i\<close>) with
  \<^verbatim>\<open>size_t\<close> (sizes and indices). \<^verbatim>\<open>size_t\<close> values are natural numbers below
  \<open>2 ^ 64\<close> and every \<^verbatim>\<open>size_t\<close> operation has its wrap-around written out; \<^verbatim>\<open>int\<close>
  values are integers between \<open>INT_MIN\<close> and \<open>INT_MAX\<close>.
\<close>

definition SIZE_MOD :: nat where
  "SIZE_MOD = 2 ^ 64"

definition INT_MAX :: int where
  "INT_MAX = 2147483647"

definition INT_MIN :: int where
  "INT_MIN = - 2147483648"

text \<open>\<^verbatim>\<open>(size_t)k\<close> for an \<^verbatim>\<open>int k\<close>: the value modulo \<open>2 ^ 64\<close>.\<close>

definition to_size_t :: "int \<Rightarrow> nat" where
  "to_size_t k = nat (k mod int SIZE_MOD)"

definition size_add :: "nat \<Rightarrow> nat \<Rightarrow> nat" where
  "size_add a b = (a + b) mod SIZE_MOD"

definition size_sub :: "nat \<Rightarrow> nat \<Rightarrow> nat" where
  "size_sub a b = (a + SIZE_MOD - b mod SIZE_MOD) mod SIZE_MOD"

definition size_mul :: "nat \<Rightarrow> nat \<Rightarrow> nat" where
  "size_mul a b = (a * b) mod SIZE_MOD"

text \<open>
  A \<^verbatim>\<open>vector<int>\<close> holds at most \<open>2 ^ 62 - 1\<close> elements: four bytes each, addressed
  through a signed 64-bit difference type.
\<close>

definition VECTOR_INT_MAX_SIZE :: nat where
  "VECTOR_INT_MAX_SIZE = 2 ^ 62 - 1"

section \<open>The parallel any-match engine\<close>

definition TARGET_VALUE :: int where
  "TARGET_VALUE = 2"

definition IsTarget :: "int \<Rightarrow> bool" where
  "IsTarget x = (x = TARGET_VALUE)"

text \<open>
  The ways a call of \<^verbatim>\<open>ParallelAnyOf\<close> can end without a boolean: the constructor of
  \<^verbatim>\<open>results\<close> throws (\<^verbatim>\<open>std::length_error\<close> or \<^verbatim>\<open>std::bad_alloc\<close>), or the chunk size
  is computed with a zero divisor. The function itself raises nothing.
\<close>

datatype error = ConstructionError | DivisionByZero

text \<open>
  A launched thread is the closure \<^verbatim>\<open>[&, start, end, i]\<close>: it captures its slot
  \<^verbatim>\<open>i\<close> and its index range by value.
\<close>

record thread =
  thr_i :: int
  thr_start :: nat
  thr_end :: nat

text \<open>The loop \<^verbatim>\<open>for (int i = 0; i < K; ++i)\<close>, returning \<^verbatim>\<open>threads\<close> in launch order.\<close>

function spawn_loop :: "nat \<Rightarrow> int \<Rightarrow> nat \<Rightarrow> int \<Rightarrow> thread list" where
  "spawn_loop dataSize K chunkSize i =
     (if i < K then
        (let start = size_mul (to_size_t i) chunkSize;
             end' = min (size_add start chunkSize) dataSize
         in if start \<ge> end' then spawn_loop dataSize K chunkSize (i + 1)
            else \<lparr>thr_i = i, thr_start = start, thr_end = end'\<rparr>
                   # spawn_loop dataSize K chunkSize (i + 1))
      else [])"
  by pat_completeness auto
termination
  by (relation "measure (\<lambda>(dataSize, K, chunkSize, i). nat (K - i))") auto

declare spawn_loop.simps [simp del]

text \<open>Line 37: \<^verbatim>\<open>size_t chunkSize = (dataSize + K - 1) / K\<close>, the division by a non-zero \<^verbatim>\<open>K\<close>.\<close>

definition chunkSize_of :: "nat \<Rightarrow> int \<Rightarrow> nat" where
  "chunkSize_of dataSize K = size_sub (size_add dataSize (to_size_t K)) 1 div to_size_t K"

text \<open>
  Storage of \<^verbatim>\<open>vector<bool> results\<close>. The standard library packs the elements of a
  \<^verbatim>\<open>vector<bool>\<close> as bits of machine words (32 bits per word in the MSVC library the
  file is compiled with): element \<^verbatim>\<open>i\<close> is bit \<open>i mod VBITS\<close> of word \<open>i div VBITS\<close>.
  The assignment \<^verbatim>\<open>results[i] = b\<close> is not one write: it loads the word holding the
  bit, sets or clears the bit in the loaded value, and stores the word back. The memory
  location written by slot \<^verbatim>\<open>i\<close> is therefore word \<open>i div VBITS\<close>. The vector is kept
  here as the list of its elements; a word is the segment of \<open>VBITS\<close> elements it holds.
\<close>

definition VBITS :: nat where
  "VBITS = 32"

definition results_word :: "int \<Rightarrow> nat" where
  "results_word i = nat i div VBITS"

definition load_word :: "bool list \<Rightarrow> nat \<Rightarrow> bool list" where
  "load_word results w = take VBITS (drop (w * VBITS) results)"

definition store_word :: "bool list \<Rightarrow> nat \<Rightarrow> bool list \<Rightarrow> bool list" where
  "store_word results w bits =
     take (w * VBITS) results @ bits @ drop (w * VBITS + length bits) results"

text \<open>
  The value a thread assigns to its slot:
  \<^verbatim>\<open>any_of(vec.begin() + start, vec.begin() + end, predicate)\<close>. It reads \<^verbatim>\<open>vec\<close> only.
\<close>

definition found_in :: "int list \<Rightarrow> (int \<Rightarrow> bool) \<Rightarrow> thread \<Rightarrow> bool" where
  "found_in vec predicate t =
     list_ex predicate (take (thr_end t - thr_start t) (drop (thr_start t) vec))"

text \<open>
  A running thread has not loaded its word yet, or holds the value it loaded, or has
  stored and finished.
\<close>

datatype phase = Ready | Loaded "bool list" | Done

text \<open>
  One step of the thread at position \<open>n\<close> of \<^verbatim>\<open>threads\<close>: the load or the store of
  \<^verbatim>\<open>results[i] = any_of(...)\<close>. The threads share \<^verbatim>\<open>results\<close> by reference (\<^verbatim>\<open>[&]\<close>),
  and the program has no lock, atomic or other ordering between the steps of two
  threads.
\<close>

definition thread_step ::
  "int list \<Rightarrow> (int \<Rightarrow> bool) \<Rightarrow> thread list \<Rightarrow> nat \<Rightarrow> bool list \<times> phase list
     \<Rightarrow> bool list \<times> phase list" where
  "thread_step vec predicate threads n st =
     (let results = fst st; phases = snd st in
      if n < length threads then
        (let t = threads ! n;
             w = results_word (thr_i t);
             b = nat (thr_i t) mod VBITS
         in case phases ! n of
              Ready \<Rightarrow> (results, phases[n := Loaded (load_word results w)])
            | Loaded bits \<Rightarrow>
                (store_word results w (bits[b := found_in vec predicate t]),
                 phases[n := Done])
            | Done \<Rightarrow> (results, phases))
      else (results, phases))"

text \<open>
  From launch to the join barrier the threads run concurrently, and the order in which
  their loads and stores reach memory is not fixed by the program: \<open>schedule\<close> lists
  the positions in \<^verbatim>\<open>threads\<close> of the threads that take the next step. The loop
  \<^verbatim>\<open>for (auto& t : threads) t.join()\<close> returns when every thread has finished, so the
  steps the schedule leaves undone are run at the end, thread after thread in launch
  order. Every complete interleaving of the loads and stores is a schedule.
\<close>

definition join_all ::
  "int list \<Rightarrow> (int \<Rightarrow> bool) \<Rightarrow> thread list \<Rightarrow> nat list \<Rightarrow> bool list \<Rightarrow> bool list" where
  "join_all vec predicate threads schedule results =
     fst (fold (thread_step vec predicate threads)
            (schedule @ concat (map (\<lambda>n. [n, n]) [0..<length threads]))
            (results, replicate (length threads) Ready))"

text \<open>
  Whether \<^verbatim>\<open>vector<bool> results(K, false)\<close> can be constructed with \<^verbatim>\<open>(size_t)K\<close>
  elements depends on the library and on the memory of the machine:
  \<open>constructible count\<close> says that the constructor returns, otherwise it throws.
  \<open>unlimited\<close> is a machine on which it always returns, \<open>limited_to m\<close> one on which
  it returns for up to \<open>m\<close> elements.
\<close>

definition unlimited :: "nat \<Rightarrow> bool" where
  "unlimited count = True"

definition limited_to :: "nat \<Rightarrow> nat \<Rightarrow> bool" where
  "limited_to m count = (count \<le> m)"

definition ParallelAnyOf ::
  "(nat \<Rightarrow> bool) \<Rightarrow> nat list \<Rightarrow> int list \<Rightarrow> int \<Rightarrow> (int \<Rightarrow> bool) \<Rightarrow> error + bool" where
  "ParallelAnyOf constructible schedule vec K predicate =
     (let dataSize = length vec in
      if dataSize = 0 then Inr False
      else if \<not> constructible (to_size_t K) then Inl ConstructionError
      else
        (let results = replicate (to_size_t K) False in
         if to_size_t K = 0 then Inl DivisionByZero
         else
           (let chunkSize = chunkSize_of dataSize K;
                threads = spawn_loop dataSize K chunkSize 0;
                results' = join_all vec predicate threads schedule results
            in Inr (list_ex (\<lambda>res. res) results'))))"

text \<open>
  Partition \<open>j\<close> of the index range for chunk size \<open>c\<close> and length \<open>N\<close>, in exact
  arithmetic; the loop is compared with it below.
\<close>

definition chunk_thread :: "nat \<Rightarrow> nat \<Rightarrow> nat \<Rightarrow> thread" where
  "chunk_thread c N j = \<lparr>thr_i = int j, thr_start = j * c, thr_end = min (j * c + c) N\<rparr>"

text \<open>
  The partitions of \<open>[0, N)\<close> for fan-out \<open>K\<close>, as \<open>(start, end)\<close> pairs in the order
  the loop of \<^verbatim>\<open>ParallelAnyOf\<close> produces them: the ranges of the launched threads.
\<close>

definition partitions :: "nat \<Rightarrow> int \<Rightarrow> (nat \<times> nat) list" where
  "partitions dataSize K =
     map (\<lambda>t. (thr_start t, thr_end t)) (spawn_loop dataSize K (chunkSize_of dataSize K) 0)"

section \<open>The data generator\<close>

text \<open>
  The random engine is the sequence of values that successive calls
  \<^verbatim>\<open>distrib(Random::engine())\<close> return. The loop
  \<^verbatim>\<open>do { x = distrib(...); } while (x == TARGET_VALUE);\<close> consumes draws up to the first
  one that is not the target; it has no bound of its own, so on a supply holding only
  target values it does not return, which is \<open>None\<close> here.
\<close>

fun draw_non_target :: "int list \<Rightarrow> (int \<times> int list) option" where
  "draw_non_target [] = None"
| "draw_non_target (d # draws) =
     (if d = TARGET_VALUE then draw_non_target draws else Some (d, draws))"

fun FillRandomNonTarget :: "int list \<Rightarrow> int list \<Rightarrow> (int list \<times> int list) option" where
  "FillRandomNonTarget [] draws = Some ([], draws)"
| "FillRandomNonTarget (x # vec) draws =
     (case draw_non_target draws of
        None \<Rightarrow> None
      | Some (x', draws') \<Rightarrow>
          (case FillRandomNonTarget vec draws' of
             None \<Rightarrow> None
           | Some (vec', draws'') \<Rightarrow> Some (x' # vec', draws'')))"

definition InitializeWorstCase :: "nat \<Rightarrow> int list \<Rightarrow> (int list \<times> int list) option" where
  "InitializeWorstCase dataSize draws =
     (case FillRandomNonTarget (replicate dataSize 0) draws of
        None \<Rightarrow> None
      | Some (vec, draws') \<Rightarrow> Some (vec, draws'))"

definition InitializeBestCase :: "nat \<Rightarrow> int list \<Rightarrow> (int list \<times> int list) option" where
  "InitializeBestCase dataSize draws =
     (case FillRandomNonTarget (replicate dataSize 0) draws of
        None \<Rightarrow> None
      | Some (vec, draws') \<Rightarrow>
          Some (if dataSize > 0 then vec[0 := TARGET_VALUE] else vec, draws'))"

definition InitializeAverageCase :: "nat \<Rightarrow> int list \<Rightarrow> (int list \<times> int list) option" where
  "InitializeAverageCase dataSize draws =
     (case FillRandomNonTarget (replicate dataSize 0) draws of
        None \<Rightarrow> None
      | Some (vec, draws') \<Rightarrow>
          Some (if dataSize > 0 then vec[dataSize div 2 := TARGET_VALUE] else vec, draws'))"

section \<open>The K-sweep analyzer\<close>

text \<open>
  \<^verbatim>\<open>numeric_limits<double>::max()\<close>. Durations are finite doubles; \<^verbatim>\<open>std::min\<close> and
  \<^verbatim>\<open><\<close> on finite doubles are the order of the reals they denote.
\<close>

definition DBL_MAX :: real where
  "DBL_MAX = 2 ^ 1024 - 2 ^ 971"

text \<open>
  Lines 107 to 114: the candidate list, with \<^verbatim>\<open>maxThreads\<close> the value of
  \<^verbatim>\<open>thread::hardware_concurrency()\<close>. \<^verbatim>\<open>std::sort\<close> is \<open>sort\<close> and
  \<^verbatim>\<open>erase(unique(...))\<close> removes adjacent duplicates. The \<^verbatim>\<open>int\<close> products are exact
  as long as \<open>maxThreads * 4\<close> does not exceed \<open>INT_MAX\<close>.
\<close>

definition K_values :: "int \<Rightarrow> int list" where
  "K_values maxThreads =
     (let maxK = max (maxThreads * 4) 8;
          pushed = [1] @ [2..maxThreads];
          pushed' = (if maxThreads > 1 then pushed @ [maxThreads * 2, maxK] else pushed)
      in remdups_adj (sort pushed'))"

text \<open>
  The state of the sweep: \<^verbatim>\<open>bestTime\<close>, \<^verbatim>\<open>bestK\<close>, and the lines
  \<^verbatim>\<open>K=<K>: <minTime>\<close> written so far.
\<close>

record sweep =
  bestTime :: real
  bestK :: int
  lines :: "(int \<times> real) list"

text \<open>
  The loop \<^verbatim>\<open>for (int run = 0; run < 3; ++run)\<close>. The clock is outside the program:
  \<open>measured run\<close> is the duration \<^verbatim>\<open>MeasureExecutionTime\<close> returns in that run.
\<close>

function run_loop :: "(nat \<Rightarrow> real) \<Rightarrow> nat \<Rightarrow> real \<Rightarrow> real" where
  "run_loop measured run minTime =
     (if run < 3 then run_loop measured (run + 1) (min minTime (measured run)) else minTime)"
  by pat_completeness auto
termination
  by (relation "measure (\<lambda>(measured, run, minTime). 3 - run)") auto

declare run_loop.simps [simp del]

text \<open>The loop \<^verbatim>\<open>for (int K : K_values)\<close> of lines 122 to 137.\<close>

fun sweep_loop :: "(int \<Rightarrow> nat \<Rightarrow> real) \<Rightarrow> nat \<Rightarrow> int \<Rightarrow> int list \<Rightarrow> sweep \<Rightarrow> sweep" where
  "sweep_loop measured vec_size maxThreads [] s = s"
| "sweep_loop measured vec_size maxThreads (K # Ks) s =
     (if to_size_t K > vec_size \<and> K > maxThreads * 2
      then sweep_loop measured vec_size maxThreads Ks s
      else
        (let minTime = run_loop (measured K) 0 DBL_MAX;
             s1 = s\<lparr>lines := lines s @ [(K, minTime)]\<rparr>;
             s2 = (if minTime < bestTime s1 then s1\<lparr>bestTime := minTime, bestK := K\<rparr> else s1)
         in sweep_loop measured vec_size maxThreads Ks s2))"

definition AnalyzePerformanceForCase :: "(int \<Rightarrow> nat \<Rightarrow> real) \<Rightarrow> int \<Rightarrow> int list \<Rightarrow> sweep" where
  "AnalyzePerformanceForCase measured maxThreads vec =
     sweep_loop measured (length vec) maxThreads (K_values maxThreads)
       \<lparr>bestTime = DBL_MAX, bestK = 0, lines = []\<rparr>"

text \<open>
  The invariant of the loop over the candidates: either no line has been written and
  \<^verbatim>\<open>bestTime\<close> still is its initial value, or \<^verbatim>\<open>bestK\<close> and \<^verbatim>\<open>bestTime\<close> are one
  of the lines written and no line has a smaller time.
\<close>

definition best_inv :: "sweep \<Rightarrow> bool" where
  "best_inv s \<longleftrightarrow>
     (lines s = [] \<and> bestTime s = DBL_MAX) \<or>
     ((bestK s, bestTime s) \<in> set (lines s) \<and> (\<forall>l\<in>set (lines s). bestTime s \<le> snd l))"

section \<open>Exact arithmetic of the partition loop\<close>

text \<open>Within the limits of the containers no \<^verbatim>\<open>size_t\<close> operation of the loop wraps around.\<close>

lemma to_size_t_nat: "0 \<le> k \<Longrightarrow> k < int SIZE_MOD \<Longrightarrow> to_size_t k = nat k"
  by (simp add: to_size_t_def)

lemma size_add_exact: "a + b < SIZE_MOD \<Longrightarrow> size_add a b = a + b"
  by (simp add: size_add_def)

lemma size_mul_exact: "a * b < SIZE_MOD \<Longrightarrow> size_mul a b = a * b"
  by (simp add: size_mul_def)

lemma size_sub_exact:
  assumes "b \<le> a" "a < SIZE_MOD"
  shows "size_sub a b = a - b"
proof -
  have b: "b mod SIZE_MOD = b" using assms by simp
  have "(a + SIZE_MOD - b) mod SIZE_MOD = ((a - b) + SIZE_MOD) mod SIZE_MOD"
    using assms by simp
  also have "\<dots> = (a - b) mod SIZE_MOD" by simp
  also have "\<dots> = a - b" using assms by simp
  finally show ?thesis by (simp add: size_sub_def b)
qed

lemma spawn_loop_exact:
  assumes "0 \<le> i" "i \<le> K" "nat K * c < SIZE_MOD" "K < int SIZE_MOD"
  shows "spawn_loop N K c i =
    map (chunk_thread c N) (filter (\<lambda>j. \<not> min (j * c + c) N \<le> j * c) [nat i..<nat K])"
  using assms
proof (induction N K c i rule: spawn_loop.induct)
  case (1 N K c i)
  show ?case
  proof (cases "i < K")
    case False
    with "1.prems" show ?thesis by (subst spawn_loop.simps) simp
  next
    case True
    have ts: "to_size_t i = nat i"
      using "1.prems" True by (intro to_size_t_nat) auto
    have le: "nat i * c + c \<le> nat K * c"
    proof -
      have "Suc (nat i) \<le> nat K" using True "1.prems" by simp
      then have "Suc (nat i) * c \<le> nat K * c" by (rule mult_le_mono1)
      then show ?thesis by simp
    qed
    have st: "size_mul (nat i) c = nat i * c"
      using le "1.prems" by (intro size_mul_exact) simp
    have en: "size_add (nat i * c) c = nat i * c + c"
      using le "1.prems" by (intro size_add_exact) simp
    have upt: "[nat i..<nat K] = nat i # [nat (i + 1)..<nat K]"
      using True "1.prems" by (simp add: upt_conv_Cons nat_add_distrib)
    have rest: "spawn_loop N K c (i + 1) =
      map (chunk_thread c N) (filter (\<lambda>j. \<not> min (j * c + c) N \<le> j * c) [nat (i + 1)..<nat K])"
    proof (cases "min (nat i * c + c) N \<le> nat i * c")
      case skip: True
      show ?thesis
        using "1.IH"(1)[OF True refl refl] skip "1.prems" True by (simp add: ts st en)
    next
      case launch: False
      show ?thesis
        using "1.IH"(2)[OF True refl refl] launch "1.prems" True by (simp add: ts st en)
    qed
    have ct: "chunk_thread c N (nat i) =
        \<lparr>thr_i = i, thr_start = nat i * c, thr_end = min (nat i * c + c) N\<rparr>"
      using "1.prems" by (simp add: chunk_thread_def)
    have unf: "spawn_loop N K c i =
      (if min (nat i * c + c) N \<le> nat i * c then spawn_loop N K c (i + 1)
       else \<lparr>thr_i = i, thr_start = nat i * c, thr_end = min (nat i * c + c) N\<rparr>
              # spawn_loop N K c (i + 1))"
      by (subst spawn_loop.simps) (simp only: True if_True Let_def ts st en)
    show ?thesis
      unfolding unf upt rest ct [symmetric]
      by (simp only: filter.simps list.map split: if_split) blast
  qed
qed

lemma chunkSize_of_exact:
  assumes "1 \<le> K" "K \<le> INT_MAX" "N \<le> VECTOR_INT_MAX_SIZE"
  shows "chunkSize_of N K = (N + nat K - 1) div nat K"
proof -
  have k: "to_size_t K = nat K"
    using assms by (intro to_size_t_nat) (simp_all add: INT_MAX_def SIZE_MOD_def)
  have lt: "N + nat K < SIZE_MOD"
    using assms by (simp add: INT_MAX_def SIZE_MOD_def VECTOR_INT_MAX_SIZE_def)
  have a: "size_add N (nat K) = N + nat K"
    using lt by (rule size_add_exact)
  have b: "size_sub (N + nat K) 1 = N + nat K - 1"
    using lt assms by (intro size_sub_exact) simp_all
  show ?thesis unfolding chunkSize_of_def k a b ..
qed

lemma ceil_div_upper: "0 < k \<Longrightarrow> k * ((n + k - 1) div k) \<le> n + k - (1::nat)"
  by simp

lemma ceil_div_lower:
  fixes n k :: nat
  assumes "0 < k"
  shows "n \<le> k * ((n + k - 1) div k)"
proof -
  let ?a = "n + k - 1"
  have "k * (?a div k) + ?a mod k = ?a" by (rule mult_div_mod_eq)
  moreover have "?a mod k < k" using assms by simp
  ultimately show ?thesis using assms by linarith
qed

lemma filter_prefix:
  assumes "\<And>a b. a \<le> b \<Longrightarrow> P b \<Longrightarrow> P a"
  shows "\<exists>m\<le>n. filter P [0..<n] = [0..<m] \<and> (\<forall>j<m. P j) \<and> (m < n \<longrightarrow> \<not> P m)"
proof (induction n)
  case 0
  then show ?case by simp
next
  case (Suc n)
  then obtain m where m: "m \<le> n" "filter P [0..<n] = [0..<m]" "\<forall>j<m. P j" "m < n \<longrightarrow> \<not> P m"
    by blast
  show ?case
  proof (cases "P n")
    case True
    have "m = n"
    proof (rule ccontr)
      assume "m \<noteq> n"
      then have "m < n" using m by simp
      then have "\<not> P m" using m by simp
      moreover have "P m" using assms [of m n] True m by simp
      ultimately show False by simp
    qed
    then show ?thesis using True m
      by (intro exI [of _ "Suc n"]) (auto simp: less_Suc_eq)
  next
    case False
    then show ?thesis using m
      by (intro exI [of _ m]) (auto simp: less_Suc_eq)
  qed
qed

lemma spawn_loop_chunks:
  assumes "1 \<le> K" "K \<le> INT_MAX" "N \<le> VECTOR_INT_MAX_SIZE"
  shows "\<exists>m\<le>nat K. spawn_loop N K (chunkSize_of N K) 0 = map (chunk_thread (chunkSize_of N K) N) [0..<m]
           \<and> (\<forall>j<m. j * chunkSize_of N K < N) \<and> N \<le> m * chunkSize_of N K"
proof -
  define c where "c = chunkSize_of N K"
  define k where "k = nat K"
  have kpos: "0 < k" using assms by (simp add: k_def)
  have c: "c = (N + k - 1) div k"
    unfolding c_def k_def using assms by (rule chunkSize_of_exact)
  have up: "k * c \<le> N + k - 1" unfolding c using kpos by (rule ceil_div_upper)
  have lo: "N \<le> k * c" unfolding c using kpos by (rule ceil_div_lower)
  have "N + k - 1 < SIZE_MOD"
    using assms by (simp add: k_def INT_MAX_def SIZE_MOD_def VECTOR_INT_MAX_SIZE_def)
  then have fit: "nat K * c < SIZE_MOD" using up by (simp add: k_def)
  have Kfit: "K < int SIZE_MOD" using assms by (simp add: INT_MAX_def SIZE_MOD_def)
  let ?Q = "\<lambda>j. \<not> min (j * c + c) N \<le> j * c"
  have Q: "?Q j \<longleftrightarrow> 0 < c \<and> j * c < N" for j by auto
  have sp: "spawn_loop N K c 0 = map (chunk_thread c N) (filter ?Q [0..<k])"
    using spawn_loop_exact [of 0 K c N] assms fit Kfit by (simp add: k_def)
  have down: "?Q a" if "a \<le> b" "?Q b" for a b
  proof -
    have le: "a * c \<le> b * c" using that(1) by (rule mult_le_mono1)
    have b: "0 < c \<and> b * c < N" using that(2) by (simp only: Q)
    then have "b * c < N" ..
    with le have "a * c < N" by (rule le_less_trans)
    with b show ?thesis by (simp only: Q)
  qed
  obtain m where m: "m \<le> k" "filter ?Q [0..<k] = [0..<m]" "\<forall>j<m. ?Q j" "m < k \<longrightarrow> \<not> ?Q m"
    using filter_prefix [of ?Q k] down by blast
  have below: "\<forall>j<m. j * c < N" using m(3) unfolding Q by simp
  have cover: "N \<le> m * c"
  proof (cases "N = 0")
    case True
    then show ?thesis by simp
  next
    case False
    then have cpos: "0 < c" using lo by (cases "c = 0") simp_all
    show ?thesis
    proof (cases "m < k")
      case True
      then have "\<not> ?Q m" using m(4) by simp
      then show ?thesis unfolding Q using cpos by simp
    next
      case False
      then have "m = k" using m(1) by simp
      then show ?thesis using lo by (simp add: mult.commute)
    qed
  qed
  show ?thesis
    unfolding c_def [symmetric] using m(1) sp m(2) below cover
    by (intro exI [of _ m]) (simp add: k_def)
qed

lemma chunk_end_inner:
  assumes "\<forall>j<m. j * c < N" "Suc j < m"
  shows "min (j * c + c) N = Suc j * c"
proof -
  have "Suc j * c < N" using assms by blast
  then show ?thesis by simp
qed

lemma chunk_end_last:
  assumes "N \<le> Suc j * c"
  shows "min (j * c + c) N = N"
  using assms by simp

lemma chunk_sum:
  assumes "\<forall>j<m. j * c < N"
  shows "m' \<le> m \<Longrightarrow> (\<Sum>j\<leftarrow>[0..<m']. min (j * c + c) N - j * c) = min (m' * c) N"
proof (induction m')
  case 0
  then show ?case by simp
next
  case (Suc m')
  then have "m' * c < N" using assms by simp
  then show ?case using Suc by simp
qed

lemma partitions_chunks:
  assumes "1 \<le> K" "K \<le> INT_MAX" "N \<le> VECTOR_INT_MAX_SIZE"
  obtains m c where "m \<le> nat K"
    and "partitions N K = map (\<lambda>j. (j * c, min (j * c + c) N)) [0..<m]"
    and "\<forall>j<m. j * c < N" and "N \<le> m * c"
proof -
  obtain m where m: "m \<le> nat K"
      "spawn_loop N K (chunkSize_of N K) 0 = map (chunk_thread (chunkSize_of N K) N) [0..<m]"
      "\<forall>j<m. j * chunkSize_of N K < N" "N \<le> m * chunkSize_of N K"
    using spawn_loop_chunks [OF assms] by blast
  have "partitions N K =
      map (\<lambda>j. (j * chunkSize_of N K, min (j * chunkSize_of N K + chunkSize_of N K) N)) [0..<m]"
    by (simp add: partitions_def m(2) chunk_thread_def comp_def)
  then show thesis using m that by blast
qed

lemmas eval_size_ops = size_add_def size_sub_def size_mul_def to_size_t_def SIZE_MOD_def

section \<open>The result slots under a schedule\<close>

text \<open>
  A load of a word followed at once by the store of the changed word is the update of
  one element.
\<close>

lemma take_drop_length: "take n xs @ drop (length (take n xs)) xs = xs"
  by (cases "n \<le> length xs") (simp_all add: min_def)

lemma store_load_update:
  assumes "j < length r"
  shows "store_word r (j div VBITS) ((load_word r (j div VBITS))[j mod VBITS := v]) = r[j := v]"
proof -
  define a where "a = j div VBITS * VBITS"
  define r' where "r' = r[j := v]"
  have V: "0 < VBITS" by (simp add: VBITS_def)
  have aj: "a \<le> j" by (simp add: a_def)
  have jb: "j - a = j mod VBITS" by (simp add: a_def minus_div_mult_eq_mod)
  have ja: "j < a + VBITS"
    using V jb mod_less_divisor [of VBITS j] aj by linarith
  have len: "length (take VBITS (drop a r)) = length (take VBITS (drop a r'))"
    by (simp add: r'_def)
  have w: "(take VBITS (drop a r))[j mod VBITS := v] = take VBITS (drop a r')"
    using aj jb by (simp add: r'_def drop_update_swap take_update_swap)
  have t: "take a r = take a r'" using aj by (simp add: r'_def)
  have d: "drop (a + length (take VBITS (drop a r'))) r = drop (a + length (take VBITS (drop a r'))) r'"
  proof -
    have "j < a + length (take VBITS (drop a r'))" using assms ja aj by (simp add: r'_def)
    then show ?thesis by (simp add: r'_def)
  qed
  have "store_word r (j div VBITS) ((load_word r (j div VBITS))[j mod VBITS := v]) =
      take a r' @ take VBITS (drop a r') @ drop (a + length (take VBITS (drop a r'))) r'"
    unfolding store_word_def load_word_def a_def [symmetric] w
    using t d by (simp only: length_list_update len)
  also have "\<dots> = take a r' @ take VBITS (drop a r') @
      drop (length (take VBITS (drop a r'))) (drop a r')"
    by (simp only: drop_drop add.commute)
  also have "\<dots> = take a r' @ drop a r'"
    by (simp only: take_drop_length)
  also have "\<dots> = r'" by simp
  finally show ?thesis by (simp only: r'_def)
qed

lemma thread_two_steps:
  assumes "n < length threads" "n < length phases" "phases ! n = Ready"
    and "0 \<le> thr_i (threads ! n)" "nat (thr_i (threads ! n)) < length results"
  shows "thread_step vec P threads n (thread_step vec P threads n (results, phases)) =
    (results[nat (thr_i (threads ! n)) := found_in vec P (threads ! n)], phases[n := Done])"
proof -
  have one: "thread_step vec P threads n (results, phases) =
      (results, phases[n := Loaded (load_word results (results_word (thr_i (threads ! n))))])"
    using assms(1,3) by (simp add: thread_step_def Let_def)
  show ?thesis
    unfolding one using assms(1,2,5)
    by (simp add: thread_step_def Let_def results_word_def store_load_update)
qed

lemma slice_ex:
  assumes "e \<le> length xs"
  shows "list_ex P (take (e - s) (drop s xs)) \<longleftrightarrow> (\<exists>x. s \<le> x \<and> x < e \<and> P (xs ! x))"
proof
  assume "list_ex P (take (e - s) (drop s xs))"
  then obtain i where i: "i < length (take (e - s) (drop s xs))"
      "P (take (e - s) (drop s xs) ! i)"
    by (auto simp: list_ex_iff in_set_conv_nth)
  then have "i < e - s" by simp
  then have "s \<le> s + i \<and> s + i < e \<and> P (xs ! (s + i))"
    using i assms by simp
  then show "\<exists>x. s \<le> x \<and> x < e \<and> P (xs ! x)" by blast
next
  assume "\<exists>x. s \<le> x \<and> x < e \<and> P (xs ! x)"
  then obtain x where x: "s \<le> x" "x < e" "P (xs ! x)" by blast
  have len: "x - s < length (take (e - s) (drop s xs))" using x assms by simp
  have eq: "take (e - s) (drop s xs) ! (x - s) = xs ! x" using x assms by simp
  have "take (e - s) (drop s xs) ! (x - s) \<in> set (take (e - s) (drop s xs))"
    using len by (rule nth_mem)
  then have "xs ! x \<in> set (take (e - s) (drop s xs))" by (simp only: eq)
  then show "list_ex P (take (e - s) (drop s xs))"
    using x(3) unfolding list_ex_iff by (rule bexI [rotated])
qed

lemma chunk_cover:
  fixes c N m x :: nat
  assumes "\<forall>j<m. j * c < N" "N \<le> m * c" "x < N"
  shows "x div c < m \<and> (x div c) * c \<le> x \<and> x < min ((x div c) * c + c) N"
proof -
  have c0: "0 < c" using assms(2,3) by (cases "c = 0") simp_all
  have dm: "x div c < m"
  proof (rule ccontr)
    assume "\<not> x div c < m"
    then have "m * c \<le> (x div c) * c" by (intro mult_le_mono1) simp
    also have "\<dots> \<le> x" by simp
    finally show False using assms(2,3) by simp
  qed
  have "x < (x div c) * c + c"
    using c0 dividend_less_div_times [of c x] by (simp add: add.commute)
  then show ?thesis using dm assms(3) by simp
qed


lemma sequential_prefix:
  assumes "m \<le> length results" "j \<le> m"
  shows "fold (thread_step vec P (map (chunk_thread c N) [0..<m]))
           (concat (map (\<lambda>n. [n, n]) [0..<j])) (results, replicate m Ready) =
         (map (\<lambda>k. if k < j then found_in vec P (chunk_thread c N k) else results ! k)
            [0..<length results],
          replicate j Done @ replicate (m - j) Ready)"
  using assms(2)
proof (induction j)
  case 0
  show ?case by (simp add: map_nth)
next
  case (Suc j)
  define threads where "threads = map (chunk_thread c N) [0..<m]"
  define R where "R = map (\<lambda>k. if k < j then found_in vec P (chunk_thread c N k) else results ! k)
      [0..<length results]"
  define Ph where "Ph = replicate j Done @ replicate (m - j) Ready"
  have jm: "j < m" using Suc.prems by simp
  have ih: "fold (thread_step vec P threads) (concat (map (\<lambda>n. [n, n]) [0..<j]))
      (results, replicate m Ready) = (R, Ph)"
    unfolding threads_def R_def Ph_def using Suc.IH jm by simp
  have t: "threads ! j = chunk_thread c N j" using jm by (simp add: threads_def)
  have two: "thread_step vec P threads j (thread_step vec P threads j (R, Ph)) =
      (R[nat (thr_i (threads ! j)) := found_in vec P (threads ! j)], Ph[j := Done])"
  proof (rule thread_two_steps)
    show "j < length threads" using jm by (simp add: threads_def)
    show "j < length Ph" using jm by (simp add: Ph_def)
    show "Ph ! j = Ready" using jm by (simp add: Ph_def nth_append)
    show "0 \<le> thr_i (threads ! j)" by (simp add: t chunk_thread_def)
    show "nat (thr_i (threads ! j)) < length R"
      using jm assms(1) by (simp add: t chunk_thread_def R_def)
  qed
  have i: "nat (thr_i (chunk_thread c N j)) = j" by (simp add: chunk_thread_def)
  have R': "R[j := found_in vec P (chunk_thread c N j)] =
      map (\<lambda>k. if k < Suc j then found_in vec P (chunk_thread c N k) else results ! k)
        [0..<length results]"
    unfolding R_def by (rule nth_equalityI) (auto simp: nth_list_update less_Suc_eq)
  have Ph': "Ph[j := Done] = replicate (Suc j) Done @ replicate (m - Suc j) Ready"
  proof -
    have "replicate (m - j) Ready = Ready # replicate (m - Suc j) Ready"
      using jm by (cases "m - j") simp_all
    then have "Ph[j := Done] = replicate j Done @ Done # replicate (m - Suc j) Ready"
      unfolding Ph_def using list_update_length [of "replicate j Done" Ready _ Done] by simp
    then show ?thesis by (simp add: replicate_append_same)
  qed
  have "fold (thread_step vec P threads) (concat (map (\<lambda>n. [n, n]) [0..<Suc j]))
      (results, replicate m Ready) =
      thread_step vec P threads j (thread_step vec P threads j (R, Ph))"
    by (simp add: ih)
  also have "\<dots> = (R[j := found_in vec P (chunk_thread c N j)], Ph[j := Done])"
    unfolding two t i ..
  finally show ?case unfolding threads_def R' Ph' .
qed

lemma join_all_sequential:
  assumes "m \<le> length results"
  shows "join_all vec P (map (chunk_thread c N) [0..<m]) [] results =
    map (\<lambda>k. if k < m then found_in vec P (chunk_thread c N k) else results ! k)
      [0..<length results]"
  using sequential_prefix [OF assms, of m vec P c N] by (simp add: join_all_def)


lemma list_ex_map_upt: "list_ex (\<lambda>res. res) (map g [0..<n]) \<longleftrightarrow> (\<exists>k<n. g k)"
  by (auto simp: list_ex_iff)

text \<open>
  When no step of another thread comes between the load and the store of a thread, as in
  the empty schedule, where the threads run one after another, the call returns
  \<open>true\<close> exactly when some element satisfies the predicate.
\<close>

lemma ParallelAnyOf_sequential:
  assumes "1 \<le> K" "K \<le> INT_MAX" "length vec \<le> VECTOR_INT_MAX_SIZE"
    and "constructible (to_size_t K)"
  shows "ParallelAnyOf constructible [] vec K P = Inr (\<exists>x\<in>set vec. P x)"
proof (cases "vec = []")
  case True
  then show ?thesis by (simp add: ParallelAnyOf_def)
next
  case False
  define N where "N = length vec"
  define c where "c = chunkSize_of N K"
  have k: "to_size_t K = nat K"
    using assms by (intro to_size_t_nat) (simp_all add: INT_MAX_def SIZE_MOD_def)
  have kpos: "nat K \<noteq> 0" using assms by simp
  have Nfit: "N \<le> VECTOR_INT_MAX_SIZE" using assms(3) by (simp only: N_def)
  obtain m where m: "m \<le> nat K"
      "spawn_loop N K c 0 = map (chunk_thread c N) [0..<m]"
      "\<forall>j<m. j * c < N" "N \<le> m * c"
    using spawn_loop_chunks [OF assms(1,2) Nfit] unfolding c_def by blast
  define found where "found = (\<lambda>k. found_in vec P (chunk_thread c N k))"
  have res: "join_all vec P (spawn_loop N K c 0) [] (replicate (nat K) False) =
      map (\<lambda>k. if k < m then found k else False) [0..<nat K]"
  proof -
    have "join_all vec P (map (chunk_thread c N) [0..<m]) [] (replicate (nat K) False) =
      map (\<lambda>k. if k < m then found k else replicate (nat K) False ! k)
        [0..<length (replicate (nat K) False)]"
      unfolding found_def by (rule join_all_sequential) (simp add: m(1))
    also have "\<dots> = map (\<lambda>k. if k < m then found k else False) [0..<nat K]"
      by (rule nth_equalityI) simp_all
    finally show ?thesis by (simp only: m(2))
  qed
  have found: "found k \<longleftrightarrow> (\<exists>x. k * c \<le> x \<and> x < min (k * c + c) N \<and> P (vec ! x))" for k
  proof -
    have "found k = list_ex P (take (min (k * c + c) N - k * c) (drop (k * c) vec))"
      by (simp add: found_def found_in_def chunk_thread_def)
    also have "\<dots> \<longleftrightarrow> (\<exists>x. k * c \<le> x \<and> x < min (k * c + c) N \<and> P (vec ! x))"
      by (rule slice_ex) (simp add: N_def)
    finally show ?thesis .
  qed
  have "list_ex (\<lambda>res. res) (map (\<lambda>k. if k < m then found k else False) [0..<nat K])
      \<longleftrightarrow> (\<exists>k<nat K. if k < m then found k else False)"
    by (rule list_ex_map_upt)
  also have "\<dots> \<longleftrightarrow> (\<exists>k<m. found k)"
    using m(1) by (meson less_le_trans)
  also have "\<dots> \<longleftrightarrow> (\<exists>x<N. P (vec ! x))"
  proof
    assume "\<exists>k<m. found k"
    then obtain k x where "x < min (k * c + c) N" "P (vec ! x)" unfolding found by blast
    then have "x < N \<and> P (vec ! x)" by simp
    then show "\<exists>x<N. P (vec ! x)" by blast
  next
    assume "\<exists>x<N. P (vec ! x)"
    then obtain x where x: "x < N" "P (vec ! x)" by blast
    from chunk_cover [OF m(3) m(4) x(1)] x(2)
    show "\<exists>k<m. found k" unfolding found by blast
  qed
  also have "\<dots> \<longleftrightarrow> (\<exists>x\<in>set vec. P x)"
    unfolding N_def by (metis in_set_conv_nth)
  finally have "list_ex (\<lambda>res. res)
      (join_all vec P (spawn_loop N K c 0) [] (replicate (nat K) False)) \<longleftrightarrow> (\<exists>x\<in>set vec. P x)"
    unfolding res .
  then show ?thesis
    using False assms(4) kpos by (simp add: ParallelAnyOf_def k Let_def N_def c_def)
qed

lemma spec_example_threads:
  "spawn_loop (length [1, 3, 1, 3, 2, 1 :: int]) 2 (chunkSize_of (length [1, 3, 1, 3, 2, 1 :: int]) 2) 0 =
     [\<lparr>thr_i = 0, thr_start = 0, thr_end = 3\<rparr>, \<lparr>thr_i = 1, thr_start = 3, thr_end = 6\<rparr>]"
  by (simp add: chunkSize_of_def spawn_loop.simps eval_size_ops Let_def)

lemma spec_example_results:
  "unlimited (to_size_t 2) \<and> to_size_t 2 \<noteq> 0 \<and> replicate (to_size_t 2) False = [False, False]"
proof -
  have "to_size_t 2 = Suc (Suc 0)" by (simp add: to_size_t_def SIZE_MOD_def)
  then show ?thesis by (simp add: unlimited_def)
qed

section \<open>Correctness of the search\<close>

text \<open>
  Claim C1. For every sequence, every \<open>K \<ge> 1\<close> and every predicate, the call is to
  return \<open>true\<close> exactly when some element satisfies the predicate. The code does not
  do so under every schedule. On the sequence \<open>[1, 3, 1, 3, 2, 1]\<close> with \<open>K = 2\<close>,
  whose element at index 4 is the target, both threads load the shared word of
  \<^verbatim>\<open>results\<close>, thread 1 stores it with its bit set, thread 0 then stores its stale
  copy and clears that bit: the call returns \<open>false\<close>. When thread 0 has finished
  before thread 1 starts, the same call returns \<open>true\<close>.
\<close>

theorem ParallelAnyOf_lost_update:
  "IsTarget ([1, 3, 1, 3, 2, 1] ! 4) \<and>
   ParallelAnyOf unlimited [0, 1, 1, 0] [1, 3, 1, 3, 2, 1] 2 IsTarget = Inr False \<and>
   ParallelAnyOf unlimited [0, 0, 1, 1] [1, 3, 1, 3, 2, 1] 2 IsTarget = Inr True"
proof -
  have a: "IsTarget ([1, 3, 1, 3, 2, 1] ! 4)"
    by (simp add: IsTarget_def TARGET_VALUE_def)
  have b: "join_all [1, 3, 1, 3, 2, 1] IsTarget
      [\<lparr>thr_i = 0, thr_start = 0, thr_end = 3\<rparr>, \<lparr>thr_i = 1, thr_start = 3, thr_end = 6\<rparr>]
      [0, 1, 1, 0] [False, False] = [False, False]"
    by (simp add: join_all_def thread_step_def load_word_def store_word_def results_word_def
        VBITS_def found_in_def IsTarget_def TARGET_VALUE_def Let_def)
  have c: "join_all [1, 3, 1, 3, 2, 1] IsTarget
      [\<lparr>thr_i = 0, thr_start = 0, thr_end = 3\<rparr>, \<lparr>thr_i = 1, thr_start = 3, thr_end = 6\<rparr>]
      [0, 0, 1, 1] [False, False] = [False, True]"
    by (simp add: join_all_def thread_step_def load_word_def store_word_def results_word_def
        VBITS_def found_in_def IsTarget_def TARGET_VALUE_def Let_def)
  have d: "ParallelAnyOf unlimited schedule [1, 3, 1, 3, 2, 1] 2 IsTarget =
      Inr (list_ex (\<lambda>res. res) (join_all [1, 3, 1, 3, 2, 1] IsTarget
        [\<lparr>thr_i = 0, thr_start = 0, thr_end = 3\<rparr>, \<lparr>thr_i = 1, thr_start = 3, thr_end = 6\<rparr>]
        schedule [False, False]))" for schedule
    unfolding ParallelAnyOf_def Let_def spec_example_threads
    using spec_example_results by simp
  show ?thesis unfolding d b c using a by simp
qed


section \<open>Partition construction\<close>

text \<open>
  Claim C2. For every \<open>N \<ge> 0\<close> and every \<open>K \<ge> 1\<close>, the partitions with
  \<open>chunkSize = ceil (N / K)\<close>, \<open>start = i * chunkSize\<close> and
  \<open>end = min (start + chunkSize) N\<close> for \<open>i\<close> in \<open>[0, K)\<close>, those with \<open>start \<ge> end\<close>
  discarded, cover \<open>[0, N)\<close> exactly once: every partition is a non-empty range inside
  \<open>[0, N)\<close>, two partitions are disjoint, the lengths sum to \<open>N\<close>, the list is sorted by
  start, each partition ends where the next starts, the first starts at 0 and the last
  ends at \<open>N\<close>, and every index below \<open>N\<close> lies in exactly one partition.
\<close>

theorem partitions_cover_exactly_once:
  assumes "1 \<le> K" "K \<le> INT_MAX" "N \<le> VECTOR_INT_MAX_SIZE"
  shows "(\<forall>p\<in>set (partitions N K). fst p < snd p \<and> snd p \<le> N) \<and>
    (\<forall>a b. a < b \<and> b < length (partitions N K) \<longrightarrow>
       {fst (partitions N K ! a)..<snd (partitions N K ! a)} \<inter>
       {fst (partitions N K ! b)..<snd (partitions N K ! b)} = {}) \<and>
    sum_list (map (\<lambda>p. snd p - fst p) (partitions N K)) = N \<and>
    sort_key fst (partitions N K) = partitions N K \<and>
    (\<forall>k. Suc k < length (partitions N K) \<longrightarrow>
       snd (partitions N K ! k) = fst (partitions N K ! Suc k)) \<and>
    (0 < N \<longrightarrow> partitions N K \<noteq> [] \<and> fst (hd (partitions N K)) = 0 \<and>
       snd (last (partitions N K)) = N) \<and>
    (\<forall>x<N. \<exists>!k. k < length (partitions N K) \<and>
       fst (partitions N K ! k) \<le> x \<and> x < snd (partitions N K ! k))"
proof -
  obtain m c where mK: "m \<le> nat K"
    and ps: "partitions N K = map (\<lambda>j. (j * c, min (j * c + c) N)) [0..<m]"
    and below: "\<forall>j<m. j * c < N" and cover: "N \<le> m * c"
    using partitions_chunks [OF assms] by blast
  define ps where "ps = partitions N K"
  have len: "length ps = m" by (simp add: ps_def ps)
  have nth: "ps ! k = (k * c, min (k * c + c) N)" if "k < m" for k
    using that by (simp add: ps_def ps)
  have cpos: "0 < c" if "0 < N"
    using cover that by (cases "c = 0") simp_all
  have mpos: "0 < m" if "0 < N"
    using cover that by (cases "m = 0") simp_all
  have Npos: "0 < N" if "k < m" for k
    using below that by (cases "N = 0") auto
  have p1: "\<forall>p\<in>set ps. fst p < snd p \<and> snd p \<le> N"
  proof
    fix p assume "p \<in> set ps"
    then obtain k where k: "k < m" "p = ps ! k"
      by (auto simp: in_set_conv_nth len)
    have "k * c < N" using below k(1) by simp
    moreover have "0 < c" using cpos Npos k(1) by simp
    ultimately show "fst p < snd p \<and> snd p \<le> N"
      by (simp add: k(2) nth [OF k(1)])
  qed
  have p2: "\<forall>a b. a < b \<and> b < length ps \<longrightarrow>
       {fst (ps ! a)..<snd (ps ! a)} \<inter> {fst (ps ! b)..<snd (ps ! b)} = {}"
  proof (intro allI impI)
    fix a b assume ab: "a < b \<and> b < length ps"
    then have am: "a < m" and bm: "b < m" by (simp_all add: len)
    have "Suc a * c \<le> b * c" using ab by (intro mult_le_mono1) simp
    then have "snd (ps ! a) \<le> fst (ps ! b)"
      by (simp add: nth [OF am] nth [OF bm] min_le_iff_disj)
    then show "{fst (ps ! a)..<snd (ps ! a)} \<inter> {fst (ps ! b)..<snd (ps ! b)} = {}"
      by auto
  qed
  have p3: "sum_list (map (\<lambda>p. snd p - fst p) ps) = N"
  proof -
    have "sum_list (map (\<lambda>p. snd p - fst p) ps) = (\<Sum>j\<leftarrow>[0..<m]. min (j * c + c) N - j * c)"
      by (simp add: ps_def ps comp_def)
    also have "\<dots> = min (m * c) N" using below by (rule chunk_sum) simp
    also have "\<dots> = N" using cover by simp
    finally show ?thesis .
  qed
  have p4: "sort_key fst ps = ps"
  proof (rule sort_key_id_if_sorted)
    have "map fst ps = map (\<lambda>j. j * c) [0..<m]" by (simp add: ps_def ps comp_def)
    moreover have "sorted (map (\<lambda>j. j * c) [0..<m])"
      by (simp add: sorted_iff_nth_mono mult_le_mono1)
    ultimately show "sorted (map fst ps)" by simp
  qed
  have p5: "\<forall>k. Suc k < length ps \<longrightarrow> snd (ps ! k) = fst (ps ! Suc k)"
  proof (intro allI impI)
    fix k assume k: "Suc k < length ps"
    then have km: "k < m" and skm: "Suc k < m" by (simp_all add: len)
    show "snd (ps ! k) = fst (ps ! Suc k)"
      using chunk_end_inner [OF below skm] by (simp add: nth [OF km] nth [OF skm])
  qed
  have p6: "0 < N \<longrightarrow> ps \<noteq> [] \<and> fst (hd ps) = 0 \<and> snd (last ps) = N"
  proof
    assume "0 < N"
    then have m0: "0 < m" by (rule mpos)
    then have ne: "ps \<noteq> []" using len by auto
    have h: "hd ps = ps ! 0" using ne by (simp add: hd_conv_nth)
    have l: "last ps = ps ! (m - 1)" using ne by (simp add: last_conv_nth len)
    have "N \<le> Suc (m - 1) * c" using cover m0 by simp
    then have "min ((m - 1) * c + c) N = N" by (rule chunk_end_last)
    then show "ps \<noteq> [] \<and> fst (hd ps) = 0 \<and> snd (last ps) = N"
      using ne m0 by (simp add: h l nth)
  qed
  have p7: "\<forall>x<N. \<exists>!k. k < length ps \<and> fst (ps ! k) \<le> x \<and> x < snd (ps ! k)"
  proof (intro allI impI)
    fix x assume x: "x < N"
    then have c0: "0 < c" by (intro cpos) simp
    have dm: "x div c < m"
    proof (rule ccontr)
      assume "\<not> x div c < m"
      then have "m * c \<le> (x div c) * c" by (intro mult_le_mono1) simp
      also have "\<dots> \<le> x" by simp
      finally show False using x cover by simp
    qed
    have lo: "(x div c) * c \<le> x" by simp
    have hi: "x < (x div c) * c + c"
      using c0 dividend_less_div_times [of c x] by (simp add: add.commute)
    show "\<exists>!k. k < length ps \<and> fst (ps ! k) \<le> x \<and> x < snd (ps ! k)"
    proof (rule ex1I [of _ "x div c"])
      show "x div c < length ps \<and> fst (ps ! (x div c)) \<le> x \<and> x < snd (ps ! (x div c))"
        using dm lo hi x by (simp add: len nth)
    next
      fix k assume k: "k < length ps \<and> fst (ps ! k) \<le> x \<and> x < snd (ps ! k)"
      then have km: "k < m" by (simp add: len)
      have "c * k \<le> x" and "x < c * Suc k"
        using k by (simp_all add: nth [OF km] mult.commute)
      then have "x div c = k" by (rule div_nat_eqI)
      then show "k = x div c" by simp
    qed
  qed
  show ?thesis
    using p1 p2 p3 p4 p5 p6 p7 unfolding ps_def by blast
qed

theorem partitions_cover_exactly_once_witness:
  "(1::int) \<le> 4 \<and> 4 \<le> INT_MAX \<and> (10::nat) \<le> VECTOR_INT_MAX_SIZE \<and>
   partitions 10 4 = [(0, 3), (3, 6), (6, 9), (9, 10)] \<and>
   sum_list (map (\<lambda>p. snd p - fst p) (partitions 10 4)) = 10 \<and>
   sort_key fst (partitions 10 4) = partitions 10 4"
proof -
  have h1: "(1::int) \<le> 4" by simp
  have h2: "(4::int) \<le> INT_MAX" by (simp add: INT_MAX_def)
  have h3: "(10::nat) \<le> VECTOR_INT_MAX_SIZE" by (simp add: VECTOR_INT_MAX_SIZE_def)
  have e: "partitions 10 4 = [(0, 3), (3, 6), (6, 9), (9, 10)]"
    by (simp add: partitions_def chunkSize_of_def spawn_loop.simps eval_size_ops Let_def)
  have "sum_list (map (\<lambda>p. snd p - fst p) (partitions 10 4)) = 10 \<and>
      sort_key fst (partitions 10 4) = partitions 10 4"
    using partitions_cover_exactly_once [OF h1 h2 h3] by blast
  then show ?thesis using h1 h2 h3 e by simp
qed

section \<open>Fan-out values below 1\<close>

lemma to_size_t_negative:
  assumes "INT_MIN \<le> K" "K < 0"
  shows "to_size_t K \<noteq> 0"
proof -
  have "(K + int SIZE_MOD) mod int SIZE_MOD = K + int SIZE_MOD"
    using assms by (intro mod_pos_pos_trivial) (simp_all add: INT_MIN_def SIZE_MOD_def)
  then have "K mod int SIZE_MOD = K + int SIZE_MOD" by simp
  then have "to_size_t K = nat (K + int SIZE_MOD)" by (simp add: to_size_t_def)
  then show ?thesis
    using assms by (simp add: INT_MIN_def SIZE_MOD_def)
qed

lemma spawn_loop_nonpositive: "K \<le> 0 \<Longrightarrow> spawn_loop N K c 0 = []"
  by (subst spawn_loop.simps) simp

lemma thread_step_no_threads: "thread_step vec P [] n st = st"
  by (simp add: thread_step_def)

lemma join_all_no_threads: "join_all vec P [] schedule results = results"
proof -
  have "fold (thread_step vec P []) schedule st = st" for st
    by (induction schedule) (simp_all add: thread_step_no_threads)
  then show ?thesis by (simp add: join_all_def)
qed

lemma list_ex_replicate_False: "list_ex (\<lambda>res. res) (replicate n False) = False"
  by (simp add: list_ex_iff)

text \<open>
  Claim C3, as amended. \<^verbatim>\<open>ParallelAnyOf\<close> has no check of \<open>K\<close> and signals no
  precondition failure. On the empty sequence it returns \<open>false\<close> for every \<open>K \<le> 0\<close>.
  On a non-empty sequence, with \<open>K = 0\<close> the chunk size is computed by a division by
  zero; with \<open>K < 0\<close> the vector \<^verbatim>\<open>results\<close> is requested with \<^verbatim>\<open>(size_t)K\<close> elements,
  and either its constructor throws, or the call returns \<open>false\<close>. For every \<open>K \<le> 0\<close>
  the loop runs zero times and launches no thread.
\<close>

theorem ParallelAnyOf_nonpositive_K:
  assumes "INT_MIN \<le> K" "K \<le> 0"
  shows "ParallelAnyOf constructible schedule [] K P = Inr False \<and>
         (vec \<noteq> [] \<and> K = 0 \<and> constructible 0 \<longrightarrow>
            ParallelAnyOf constructible schedule vec K P = Inl DivisionByZero) \<and>
         (vec \<noteq> [] \<and> K < 0 \<longrightarrow>
            ParallelAnyOf constructible schedule vec K P =
              (if constructible (to_size_t K) then Inr False else Inl ConstructionError)) \<and>
         spawn_loop (length vec) K (chunkSize_of (length vec) K) 0 = []"
proof -
  have e: "ParallelAnyOf constructible schedule [] K P = Inr False"
    by (simp add: ParallelAnyOf_def)
  have z: "ParallelAnyOf constructible schedule vec K P = Inl DivisionByZero"
    if "vec \<noteq> [] \<and> K = 0 \<and> constructible 0"
    using that by (simp add: ParallelAnyOf_def to_size_t_def)
  have n: "ParallelAnyOf constructible schedule vec K P =
      (if constructible (to_size_t K) then Inr False else Inl ConstructionError)"
    if "vec \<noteq> [] \<and> K < 0"
  proof -
    have "to_size_t K \<noteq> 0" using assms(1) that by (intro to_size_t_negative) simp_all
    then show ?thesis
      using that
      by (simp add: ParallelAnyOf_def spawn_loop_nonpositive join_all_no_threads
          list_ex_replicate_False)
  qed
  have l: "spawn_loop (length vec) K (chunkSize_of (length vec) K) 0 = []"
    using assms(2) by (rule spawn_loop_nonpositive)
  show ?thesis using e z n l by blast
qed

theorem ParallelAnyOf_nonpositive_K_witness:
  "INT_MIN \<le> 0 \<and> (0::int) \<le> 0 \<and> INT_MIN \<le> - 1 \<and> (- 1::int) \<le> 0 \<and> [1, 2 :: int] \<noteq> [] \<and>
   unlimited 0 \<and> unlimited (to_size_t (- 1)) \<and> \<not> limited_to 1000 (to_size_t (- 1)) \<and>
   ParallelAnyOf unlimited [] [1, 2] 0 IsTarget = Inl DivisionByZero \<and>
   ParallelAnyOf unlimited [] [1, 2] (- 1) IsTarget = Inr False \<and>
   ParallelAnyOf (limited_to 1000) [] [1, 2] (- 1) IsTarget = Inl ConstructionError \<and>
   ParallelAnyOf unlimited [] [] (- 1) IsTarget = Inr False"
proof -
  have h0: "INT_MIN \<le> 0" and h1: "INT_MIN \<le> - 1" by (simp_all add: INT_MIN_def)
  have z: "(0::int) \<le> 0" and m: "(- 1::int) \<le> 0" by simp_all
  have u: "unlimited 0 \<and> unlimited (to_size_t (- 1))" by (simp add: unlimited_def)
  have l: "\<not> limited_to 1000 (to_size_t (- 1))"
    by (simp add: limited_to_def to_size_t_def SIZE_MOD_def)
  show ?thesis
    using ParallelAnyOf_nonpositive_K [OF h0 z, of unlimited "[]" IsTarget "[1, 2]"]
      ParallelAnyOf_nonpositive_K [OF h1 m, of unlimited "[]" IsTarget "[1, 2]"]
      ParallelAnyOf_nonpositive_K [OF h1 m, of "limited_to 1000" "[]" IsTarget "[1, 2]"]
      h0 h1 u l
    by simp
qed

text \<open>
  The claim as first stated, that every call with \<open>K \<le> 0\<close> fails and returns no
  boolean, is false on the empty sequence with \<open>K = 0\<close>.
\<close>

theorem ParallelAnyOf_empty_K0_returns: "ParallelAnyOf unlimited [] [] 0 IsTarget = Inr False"
  by (simp add: ParallelAnyOf_def)

section \<open>Result slots in memory\<close>

text \<open>
  Claim C4. Each launched thread writes only its own slot \<^verbatim>\<open>results[i]\<close>, and the slots
  of two threads differ as indices. They are not disjoint in memory: on the sequence
  \<open>[1, 2]\<close> with \<open>K = 2\<close> the two threads launched write slots 0 and 1 of the
  \<^verbatim>\<open>vector<bool>\<close>, which are bits of the same storage word.
\<close>

theorem result_slots_share_word:
  "map thr_i (spawn_loop (length [1, 2 :: int]) 2 (chunkSize_of (length [1, 2 :: int]) 2) 0) = [0, 1] \<and>
   map (\<lambda>t. results_word (thr_i t))
     (spawn_loop (length [1, 2 :: int]) 2 (chunkSize_of (length [1, 2 :: int]) 2) 0) = [0, 0]"
  by (simp add: chunkSize_of_def spawn_loop.simps eval_size_ops Let_def results_word_def VBITS_def)

section \<open>Empty input\<close>

text \<open>
  Claim C10. The emptiness test is the first thing \<^verbatim>\<open>ParallelAnyOf\<close> does, before
  \<^verbatim>\<open>K\<close> is used: on the empty sequence the call returns \<open>false\<close> for every integer
  \<^verbatim>\<open>K\<close>, also for \<open>K \<le> 0\<close>, and no failure is signalled.
\<close>

theorem ParallelAnyOf_empty_any_K:
  "ParallelAnyOf constructible schedule [] K predicate = Inr False"
  by (simp add: ParallelAnyOf_def)

section \<open>The candidate set\<close>

lemma distinct_remdups_adj_sorted: "sorted xs \<Longrightarrow> distinct (remdups_adj xs)"
  by (induction xs rule: remdups_adj.induct) (auto split: if_split_asm)

lemma remdups_adj_sort:
  fixes xs :: "int list"
  shows "remdups_adj (sort xs) = sorted_list_of_set (set xs)"
proof (rule sorted_distinct_set_unique)
  show "sorted (remdups_adj (sort xs))" by simp
  show "distinct (remdups_adj (sort xs))" by (rule distinct_remdups_adj_sorted) simp
  show "sorted (sorted_list_of_set (set xs))" by simp
  show "distinct (sorted_list_of_set (set xs))" by simp
  show "set (remdups_adj (sort xs)) = set (sorted_list_of_set (set xs))" by simp
qed

lemma K_values_exact:
  "K_values P = sorted_list_of_set
     ({1} \<union> {2..P} \<union> (if P > 1 then {2 * P, max (4 * P) 8} else {}))"
proof -
  let ?pushed = "if P > 1 then ([1] @ [2..P]) @ [P * 2, max (P * 4) 8] else [1] @ [2..P]"
  have "K_values P = sorted_list_of_set (set ?pushed)"
    by (simp only: K_values_def Let_def remdups_adj_sort)
  moreover have "set ?pushed = {1} \<union> {2..P} \<union> (if P > 1 then {2 * P, max (4 * P) 8} else {})"
    by (auto simp: mult.commute)
  ultimately show ?thesis by (simp only:)
qed

lemma set_K_values:
  "set (K_values P) = {1} \<union> {2..P} \<union> (if P > 1 then {2 * P, max (4 * P) 8} else {})"
  unfolding K_values_exact by (rule set_sorted_list_of_set) simp

lemma sorted_distinct_K_values: "sorted (K_values P) \<and> distinct (K_values P)"
  unfolding K_values_exact
  by (intro conjI sorted_list_of_set.sorted_sorted_key_list_of_set
      sorted_list_of_set.distinct_sorted_key_list_of_set)

text \<open>
  Claim C5. For every hardware concurrency \<open>P \<ge> 1\<close> the candidate list is the
  ascending, duplicate-free list of \<open>{1} \<union> {2..P}\<close>, together with \<open>2P\<close> and
  \<open>max (4P) 8\<close> when \<open>P > 1\<close>; for \<open>P = 4\<close> it is \<open>[1, 2, 3, 4, 8, 16]\<close>.
  \<open>P * 4\<close> is computed in \<^verbatim>\<open>int\<close>, hence the bound.
\<close>

theorem K_values_candidates:
  assumes "1 \<le> P" "P * 4 \<le> INT_MAX"
  shows "K_values P = sorted_list_of_set
           ({1} \<union> {2..P} \<union> (if P > 1 then {2 * P, max (4 * P) 8} else {})) \<and>
         sorted (K_values P) \<and> distinct (K_values P) \<and>
         K_values 4 = [1, 2, 3, 4, 8, 16]"
proof -
  have "K_values 4 = [1, 2, 3, 4, 8, 16]"
    by (simp add: K_values_def upto.simps)
  then show ?thesis using K_values_exact [of P] sorted_distinct_K_values [of P] by (simp only:) 
qed

theorem K_values_candidates_witness:
  "(1::int) \<le> 4 \<and> (4::int) * 4 \<le> INT_MAX \<and>
   K_values 4 = sorted_list_of_set ({1} \<union> {2..4} \<union> {2 * 4, max (4 * 4) 8}) \<and>
   K_values 4 = [1, 2, 3, 4, 8, 16]"
proof -
  have h1: "(1::int) \<le> 4" by simp
  have h2: "(4::int) * 4 \<le> INT_MAX" by (simp add: INT_MAX_def)
  show ?thesis using K_values_candidates [OF h1 h2] h1 h2 by (simp only: if_True) simp
qed

section \<open>The sweep\<close>

lemma run_loop_three:
  "run_loop m 0 d = min (min (min d (m 0)) (m 1)) (m 2)"
proof -
  have "run_loop m 3 x = x" for x by (subst run_loop.simps) simp
  moreover have "run_loop m 2 x = run_loop m 3 (min x (m 2))" for x
    by (subst run_loop.simps) (simp add: eval_nat_numeral)
  moreover have "run_loop m 1 x = run_loop m 2 (min x (m 1))" for x
    by (subst run_loop.simps) (simp add: eval_nat_numeral)
  moreover have "run_loop m 0 x = run_loop m 1 (min x (m 0))" for x
    by (subst run_loop.simps) simp
  ultimately show ?thesis by simp
qed

lemma run_loop_Min:
  assumes "\<forall>run<3. m run \<le> DBL_MAX"
  shows "run_loop m 0 DBL_MAX = Min {m 0, m 1, m 2}"
proof -
  have "m 0 \<le> DBL_MAX" using assms by simp
  then show ?thesis by (simp add: run_loop_three min.absorb2 min.assoc)
qed

lemma sweep_loop_lines:
  "lines (sweep_loop measured n P Ks s) =
     lines s @ map (\<lambda>K. (K, run_loop (measured K) 0 DBL_MAX))
       (filter (\<lambda>K. \<not> (to_size_t K > n \<and> K > P * 2)) Ks)"
  by (induction Ks arbitrary: s) (simp_all add: Let_def)

lemma sweep_loop_best:
  assumes "best_inv s" "\<forall>K\<in>set Ks. run_loop (measured K) 0 DBL_MAX < DBL_MAX"
  shows "best_inv (sweep_loop measured n P Ks s)"
  using assms
proof (induction Ks arbitrary: s)
  case Nil
  then show ?case by simp
next
  case (Cons K Ks)
  define t where "t = run_loop (measured K) 0 DBL_MAX"
  have t: "t < DBL_MAX" using Cons.prems(2) by (simp add: t_def)
  define s1 where "s1 = s\<lparr>lines := lines s @ [(K, t)]\<rparr>"
  define s2 where "s2 = (if t < bestTime s1 then s1\<lparr>bestTime := t, bestK := K\<rparr> else s1)"
  have inv2: "best_inv s2"
  proof (cases "t < bestTime s")
    case True
    then show ?thesis using Cons.prems(1)
      by (auto simp: best_inv_def s2_def s1_def)
  next
    case False
    then have "lines s \<noteq> []" using Cons.prems(1) t by (auto simp: best_inv_def)
    then show ?thesis using Cons.prems(1) False
      by (auto simp: best_inv_def s2_def s1_def)
  qed
  show ?case
  proof (cases "to_size_t K > n \<and> K > P * 2")
    case True
    then show ?thesis using Cons by simp
  next
    case False
    then have "sweep_loop measured n P (K # Ks) s = sweep_loop measured n P Ks s2"
      by (simp only: sweep_loop.simps False if_False Let_def s2_def s1_def t_def)
    then show ?thesis using Cons.IH [OF inv2] Cons.prems(2) by simp
  qed
qed

lemma K_values_range:
  assumes "P * 4 \<le> INT_MAX" "K \<in> set (K_values P)"
  shows "1 \<le> K \<and> K < int SIZE_MOD"
proof -
  have "K = 1 \<or> (2 \<le> K \<and> K \<le> P) \<or> (1 < P \<and> (K = 2 * P \<or> K = max (4 * P) 8))"
    using assms(2) unfolding set_K_values by (auto split: if_split_asm)
  then show ?thesis using assms(1) by (auto simp: INT_MAX_def SIZE_MOD_def)
qed

lemma lines_AnalyzePerformanceForCase:
  "lines (AnalyzePerformanceForCase measured P vec) =
     map (\<lambda>K. (K, run_loop (measured K) 0 DBL_MAX))
       (filter (\<lambda>K. \<not> (to_size_t K > length vec \<and> K > P * 2)) (K_values P))"
  by (simp add: AnalyzePerformanceForCase_def sweep_loop_lines)

lemma lines_nonempty:
  assumes "vec \<noteq> [] \<or> 1 \<le> P"
  shows "lines (AnalyzePerformanceForCase measured P vec) \<noteq> []"
proof -
  have one: "(1::int) \<in> set (K_values P)" unfolding set_K_values by simp
  have "to_size_t 1 = 1" by (simp add: to_size_t_def SIZE_MOD_def)
  moreover have "\<not> (1 > length vec \<and> 1 > P * 2)" using assms by auto
  ultimately have "\<not> (to_size_t 1 > length vec \<and> 1 > P * 2)" by simp
  then have "(1::int) \<in> set (filter (\<lambda>K. \<not> (to_size_t K > length vec \<and> K > P * 2)) (K_values P))"
    using one by simp
  then show ?thesis
    unfolding lines_AnalyzePerformanceForCase by (auto simp: filter_empty_conv)
qed

lemma K_values_4: "K_values 4 = [1, 2, 3, 4, 8, 16]"
  by (simp add: K_values_def upto.simps)

text \<open>
  Claim C6. For each candidate evaluated, the line written holds the minimum of the
  three measured durations; the best \<open>K\<close> reported is one of the evaluated candidates,
  its time is the one on its line, and no evaluated candidate has a smaller one. A
  candidate is evaluated whenever the sequence is non-empty or \<open>P \<ge> 1\<close>. Measured
  durations are finite doubles below \<^verbatim>\<open>numeric_limits<double>::max()\<close>.
\<close>

theorem sweep_best_of_three:
  assumes "0 \<le> P" "P * 4 \<le> INT_MAX"
    and "\<forall>K\<in>set (K_values P). \<forall>run<3. measured K run < DBL_MAX"
  shows "(\<forall>l\<in>set (lines (AnalyzePerformanceForCase measured P vec)).
            snd l = Min {measured (fst l) 0, measured (fst l) 1, measured (fst l) 2}) \<and>
         (lines (AnalyzePerformanceForCase measured P vec) \<noteq> [] \<longrightarrow>
            (bestK (AnalyzePerformanceForCase measured P vec),
             bestTime (AnalyzePerformanceForCase measured P vec))
              \<in> set (lines (AnalyzePerformanceForCase measured P vec)) \<and>
            (\<forall>l\<in>set (lines (AnalyzePerformanceForCase measured P vec)).
               bestTime (AnalyzePerformanceForCase measured P vec) \<le> snd l)) \<and>
         (vec \<noteq> [] \<or> 1 \<le> P \<longrightarrow> lines (AnalyzePerformanceForCase measured P vec) \<noteq> [])"
proof -
  define A where "A = AnalyzePerformanceForCase measured P vec"
  have mt: "run_loop (measured K) 0 DBL_MAX = Min {measured K 0, measured K 1, measured K 2}"
    if "K \<in> set (K_values P)" for K
  proof (rule run_loop_Min)
    show "\<forall>run<3. measured K run \<le> DBL_MAX"
      using assms(3) that by (auto intro: less_imp_le)
  qed
  have lt: "run_loop (measured K) 0 DBL_MAX < DBL_MAX" if "K \<in> set (K_values P)" for K
  proof -
    have "measured K 0 < DBL_MAX" using assms(3) that by simp
    then show ?thesis by (simp add: run_loop_three min_less_iff_disj)
  qed
  have a: "\<forall>l\<in>set (lines A). snd l = Min {measured (fst l) 0, measured (fst l) 1, measured (fst l) 2}"
    unfolding A_def lines_AnalyzePerformanceForCase using mt by auto
  have "best_inv \<lparr>bestTime = DBL_MAX, bestK = 0, lines = []\<rparr>"
    by (simp add: best_inv_def)
  then have "best_inv A"
    unfolding A_def AnalyzePerformanceForCase_def using lt by (intro sweep_loop_best) simp_all
  then have b: "lines A \<noteq> [] \<longrightarrow>
      (bestK A, bestTime A) \<in> set (lines A) \<and> (\<forall>l\<in>set (lines A). bestTime A \<le> snd l)"
    by (auto simp: best_inv_def)
  have c: "vec \<noteq> [] \<or> 1 \<le> P \<longrightarrow> lines A \<noteq> []"
    unfolding A_def using lines_nonempty by blast
  show ?thesis using a b c unfolding A_def by blast
qed

theorem sweep_best_of_three_witness:
  "(0::int) \<le> 4 \<and> (4::int) * 4 \<le> INT_MAX \<and>
   (0.05::real) < DBL_MAX \<and> (0.03::real) < DBL_MAX \<and> (0.04::real) < DBL_MAX \<and>
   lines (AnalyzePerformanceForCase (\<lambda>K run. [0.05, 0.03, 0.04] ! run) 4 [1, 3]) =
     [(1, 0.03), (2, 0.03), (3, 0.03), (4, 0.03), (8, 0.03)] \<and>
   bestK (AnalyzePerformanceForCase (\<lambda>K run. [0.05, 0.03, 0.04] ! run) 4 [1, 3]) = 1 \<and>
   bestTime (AnalyzePerformanceForCase (\<lambda>K run. [0.05, 0.03, 0.04] ! run) 4 [1, 3]) = 0.03"
proof -
  define m where "m = (\<lambda>(K::int) run. [0.05, 0.03, 0.04 :: real] ! run)"
  have h1: "(0::int) \<le> 4" by simp
  have h2: "(4::int) * 4 \<le> INT_MAX" by (simp add: INT_MAX_def)
  have d: "(0.05::real) < DBL_MAX \<and> (0.03::real) < DBL_MAX \<and> (0.04::real) < DBL_MAX"
    by (simp add: DBL_MAX_def)
  have m3: "m K 0 = 0.05 \<and> m K (Suc 0) = 0.03 \<and> m K 2 = 0.04" for K
    by (simp add: m_def)
  have h3: "\<forall>K\<in>set (K_values 4). \<forall>run<3. m K run < DBL_MAX"
    using d by (auto simp: less_Suc_eq numeral_3_eq_3 m_def)
  have r: "run_loop (m K) 0 DBL_MAX = 0.03" for K
    using d by (simp add: run_loop_three m3)
  have l: "lines (AnalyzePerformanceForCase m 4 [1, 3]) =
      [(1, 0.03), (2, 0.03), (3, 0.03), (4, 0.03), (8, 0.03)]"
    by (simp add: lines_AnalyzePerformanceForCase K_values_4 r to_size_t_def SIZE_MOD_def)
  have k: "bestK (AnalyzePerformanceForCase m 4 [1, 3]) = 1"
    using d
    by (simp add: AnalyzePerformanceForCase_def K_values_4 r to_size_t_def SIZE_MOD_def Let_def)
  have "bestTime (AnalyzePerformanceForCase m 4 [1, 3]) = 0.03"
    using sweep_best_of_three [OF h1 h2 h3, of "[1, 3]"] unfolding l by auto
  then show ?thesis using h1 h2 d l k unfolding m_def by simp
qed

text \<open>
  Claim C7. A candidate \<open>K\<close> is evaluated if and only if it is not the case that both
  \<open>K > N\<close> and \<open>K > 2P\<close>, for \<open>N\<close> the length of the sequence.
\<close>

theorem sweep_skip_rule:
  assumes "0 \<le> P" "P * 4 \<le> INT_MAX"
  shows "K \<in> fst ` set (lines (AnalyzePerformanceForCase measured P vec)) \<longleftrightarrow>
         K \<in> set (K_values P) \<and> \<not> (int (length vec) < K \<and> 2 * P < K)"
proof -
  have ev: "(to_size_t K > length vec \<and> K > P * 2) \<longleftrightarrow> (int (length vec) < K \<and> 2 * P < K)"
    if "K \<in> set (K_values P)"
  proof -
    have r: "1 \<le> K \<and> K < int SIZE_MOD" using assms(2) that by (rule K_values_range)
    then have "to_size_t K = nat K" by (intro to_size_t_nat) simp_all
    then show ?thesis using r by auto
  qed
  have "fst ` set (lines (AnalyzePerformanceForCase measured P vec)) =
      {K \<in> set (K_values P). \<not> (to_size_t K > length vec \<and> K > P * 2)}"
    unfolding lines_AnalyzePerformanceForCase by (auto simp: image_iff)
  then show ?thesis using ev by auto
qed

theorem sweep_skip_rule_witness:
  "(0::int) \<le> 4 \<and> (4::int) * 4 \<le> INT_MAX \<and> 16 \<in> set (K_values 4) \<and> 8 \<in> set (K_values 4) \<and>
   16 \<notin> fst ` set (lines (AnalyzePerformanceForCase (\<lambda>K run. 1) 4 [1, 3])) \<and>
   8 \<in> fst ` set (lines (AnalyzePerformanceForCase (\<lambda>K run. 1) 4 [1, 3]))"
proof -
  have h1: "(0::int) \<le> 4" by simp
  have h2: "(4::int) * 4 \<le> INT_MAX" by (simp add: INT_MAX_def)
  show ?thesis
    using sweep_skip_rule [OF h1 h2, of 16 "\<lambda>K run. 1" "[1, 3]"]
      sweep_skip_rule [OF h1 h2, of 8 "\<lambda>K run. 1" "[1, 3]"] h2
    by (simp add: K_values_4)
qed

section \<open>The scenario initializers\<close>

lemma draw_non_target_filter:
  assumes "filter (\<lambda>d. d \<noteq> TARGET_VALUE) draws \<noteq> []"
  shows "\<exists>rest. draw_non_target draws = Some (hd (filter (\<lambda>d. d \<noteq> TARGET_VALUE) draws), rest) \<and>
           filter (\<lambda>d. d \<noteq> TARGET_VALUE) rest = tl (filter (\<lambda>d. d \<noteq> TARGET_VALUE) draws)"
  using assms by (induction draws) auto

lemma FillRandomNonTarget_filter:
  assumes "length vec \<le> length (filter (\<lambda>d. d \<noteq> TARGET_VALUE) draws)"
  shows "\<exists>rest. FillRandomNonTarget vec draws =
           Some (take (length vec) (filter (\<lambda>d. d \<noteq> TARGET_VALUE) draws), rest)"
  using assms
proof (induction vec arbitrary: draws)
  case Nil
  then show ?case by simp
next
  case (Cons x vec)
  let ?f = "filter (\<lambda>d. d \<noteq> TARGET_VALUE)"
  have ne: "?f draws \<noteq> []" using Cons.prems by auto
  then obtain rest where rest: "draw_non_target draws = Some (hd (?f draws), rest)"
      "?f rest = tl (?f draws)"
    using draw_non_target_filter by blast
  have "length vec \<le> length (?f rest)" using Cons.prems rest(2) by simp
  then obtain rest' where rest': "FillRandomNonTarget vec rest =
      Some (take (length vec) (?f rest), rest')"
    using Cons.IH by blast
  have "take (length (x # vec)) (?f draws) = hd (?f draws) # take (length vec) (?f rest)"
    using ne rest(2) by (cases "?f draws") simp_all
  then show ?case using rest rest' by simp
qed

lemma FillRandomNonTarget_result:
  assumes "N \<le> length (filter (\<lambda>d. d \<noteq> TARGET_VALUE) draws)"
  shows "\<exists>vec rest. FillRandomNonTarget (replicate N 0) draws = Some (vec, rest) \<and>
           length vec = N \<and> TARGET_VALUE \<notin> set vec"
proof -
  let ?f = "filter (\<lambda>d. d \<noteq> TARGET_VALUE)"
  obtain rest where "FillRandomNonTarget (replicate N 0) draws = Some (take N (?f draws), rest)"
    using FillRandomNonTarget_filter [of "replicate N 0" draws] assms by auto
  moreover have "length (take N (?f draws)) = N" using assms by simp
  moreover have "TARGET_VALUE \<notin> set (take N (?f draws))"
    using set_take_subset [of N "?f draws"] by auto
  ultimately show ?thesis by blast
qed

text \<open>
  Claim C8. For every \<open>dataSize > 0\<close>, on a random supply with at least \<open>dataSize\<close>
  values other than the target, the three initializers return: the worst case an array
  without the target, the best case an array whose only target is at index 0, the
  average case an array whose only target is at index \<open>dataSize div 2\<close>.
\<close>

theorem initializers_place_target:
  assumes "0 < N" "N \<le> length (filter (\<lambda>d. d \<noteq> TARGET_VALUE) draws)"
  shows "\<exists>w b a rest.
     InitializeWorstCase N draws = Some (w, rest) \<and>
     InitializeBestCase N draws = Some (b, rest) \<and>
     InitializeAverageCase N draws = Some (a, rest) \<and>
     length w = N \<and> length b = N \<and> length a = N \<and>
     TARGET_VALUE \<notin> set w \<and>
     (\<forall>i<N. b ! i = TARGET_VALUE \<longleftrightarrow> i = 0) \<and>
     (\<forall>i<N. a ! i = TARGET_VALUE \<longleftrightarrow> i = N div 2)"
proof -
  obtain vec rest where f: "FillRandomNonTarget (replicate N 0) draws = Some (vec, rest)"
      "length vec = N" "TARGET_VALUE \<notin> set vec"
    using FillRandomNonTarget_result [OF assms(2)] by blast
  have no: "vec ! i \<noteq> TARGET_VALUE" if "i < N" for i
    using f(2,3) that by (metis nth_mem)
  have w: "InitializeWorstCase N draws = Some (vec, rest)"
    by (simp add: InitializeWorstCase_def f(1))
  have b: "InitializeBestCase N draws = Some (vec[0 := TARGET_VALUE], rest)"
    using assms(1) by (simp add: InitializeBestCase_def f(1))
  have a: "InitializeAverageCase N draws = Some (vec[N div 2 := TARGET_VALUE], rest)"
    using assms(1) by (simp add: InitializeAverageCase_def f(1))
  have pb: "\<forall>i<N. vec[0 := TARGET_VALUE] ! i = TARGET_VALUE \<longleftrightarrow> i = 0"
    using no f(2) by (simp add: nth_list_update)
  have pa: "\<forall>i<N. vec[N div 2 := TARGET_VALUE] ! i = TARGET_VALUE \<longleftrightarrow> i = N div 2"
    using no f(2) assms(1) by (auto simp: nth_list_update)
  show ?thesis
    using w b a f(2,3) pb pa by simp
qed

theorem initializers_place_target_witness:
  "(0::nat) < 3 \<and> 3 \<le> length (filter (\<lambda>d. d \<noteq> TARGET_VALUE) [2, 1, 2, 2, 3, 3, 1]) \<and>
   InitializeWorstCase 3 [2, 1, 2, 2, 3, 3, 1] = Some ([1, 3, 3], [1]) \<and>
   InitializeBestCase 3 [2, 1, 2, 2, 3, 3, 1] = Some ([2, 3, 3], [1]) \<and>
   InitializeAverageCase 3 [2, 1, 2, 2, 3, 3, 1] = Some ([1, 2, 3], [1])"
proof -
  have h1: "(0::nat) < 3" by simp
  have h2: "3 \<le> length (filter (\<lambda>d. d \<noteq> TARGET_VALUE) [2, 1, 2, 2, 3, 3, 1])"
    by (simp add: TARGET_VALUE_def)
  have e: "InitializeWorstCase 3 [2, 1, 2, 2, 3, 3, 1] = Some ([1, 3, 3], [1]) \<and>
   InitializeBestCase 3 [2, 1, 2, 2, 3, 3, 1] = Some ([2, 3, 3], [1]) \<and>
   InitializeAverageCase 3 [2, 1, 2, 2, 3, 3, 1] = Some ([1, 2, 3], [1])"
    by (simp add: InitializeWorstCase_def InitializeBestCase_def InitializeAverageCase_def
        TARGET_VALUE_def numeral_3_eq_3)
  show ?thesis
    using initializers_place_target [OF h1 h2] h1 h2 e by simp
qed

end
